theory Spec2Isabelle
  imports Main "HOL-Library.Word" "HOL-Library.Sublist"
begin

section \<open>Python values used by wsl.parse\<close>

text \<open>
  A Python \<^verbatim>\<open>bytes\<close> object is a list of 8-bit values; indexing it (\<^verbatim>\<open>line[i]\<close>)
  yields a Python \<^verbatim>\<open>int\<close>. A Python \<^verbatim>\<open>str\<close> (only error messages are of this
  type) is represented by its UTF-8 encoding, so that the strict decoding done by
  \<^verbatim>\<open>u\<close> is the identity on the bytes it accepts. Offsets into a line are natural
  numbers: the callers pass 0 or the offset returned by a previous lexer.
\<close>

type_synonym byte = "8 word"
type_synonym bytes = "byte list"
type_synonym pystr = "byte list"

definition lit :: "string \<Rightarrow> byte list" where
  "lit s = map of_char s"

text \<open>
  Every exception the module can raise is a value. \<open>Exception msg\<close> is
  \<^verbatim>\<open>raise Exception(msg)\<close>; the others are the builtin exceptions raised by
  indexing out of range, by \<^verbatim>\<open>ord\<close> and tuple unpacking on a value of the wrong type,
  by a failed \<^verbatim>\<open>assert\<close>, by a missing dictionary key and by an exhausted iterator.
\<close>

datatype error =
    Exception pystr
  | TypeError
  | IndexError
  | KeyError bytes
  | AssertionError
  | StopIteration

text \<open>The two kinds of Python value that reach \<^verbatim>\<open>ord\<close> and \<^verbatim>\<open>==\<close> in this module.\<close>

datatype pyobj = PyInt int | PyStr string

fun py_eq :: "pyobj \<Rightarrow> pyobj \<Rightarrow> bool" where
  "py_eq (PyInt a) (PyInt b) = (a = b)"
| "py_eq (PyStr s) (PyStr t) = (s = t)"
| "py_eq _ _ = False"

text \<open>\<^verbatim>\<open>ord(c)\<close>: the code point of a one-character string; a \<^verbatim>\<open>TypeError\<close> on an
  \<^verbatim>\<open>int\<close> and on a string of any other length.\<close>

fun py_ord :: "pyobj \<Rightarrow> error + int" where
  "py_ord (PyStr [c]) = Inr (of_char c)"
| "py_ord _ = Inl TypeError"

text \<open>\<^verbatim>\<open>line[i]\<close> on a bytes object, for \<open>i \<ge> 0\<close>.\<close>

definition getitem :: "bytes \<Rightarrow> nat \<Rightarrow> error + byte" where
  "getitem line i = (if i < length line then Inr (line ! i) else Inl IndexError)"

text \<open>\<^verbatim>\<open>'%d' % n\<close> for a non-negative \<open>n\<close>.\<close>

fun dec :: "nat \<Rightarrow> pystr" where
  "dec n = (if n < 10 then [of_nat (48 + n)] else dec (n div 10) @ [of_nat (48 + n mod 10)])"

declare dec.simps [simp del]

section \<open>UTF-8 decoding for diagnostics: u\<close>

text \<open>
  \<open>utf8_seq bs\<close> is the length of the well-formed UTF-8 sequence at the head of \<open>bs\<close>
  (no overlong forms, no surrogates, nothing above U+10FFFF), or 0 when there is none:
  what Python's strict decoder accepts.
\<close>

definition cont :: "bytes \<Rightarrow> nat \<Rightarrow> byte \<Rightarrow> byte \<Rightarrow> bool" where
  "cont bs k lo hi = (k < length bs \<and> lo \<le> bs ! k \<and> bs ! k \<le> hi)"

definition utf8_seq :: "bytes \<Rightarrow> nat" where
  "utf8_seq bs =
     (case bs of [] \<Rightarrow> 0
      | b # _ \<Rightarrow>
        if b < 0x80 then 1
        else if 0xC2 \<le> b \<and> b \<le> 0xDF then (if cont bs 1 0x80 0xBF then 2 else 0)
        else if b = 0xE0 then (if cont bs 1 0xA0 0xBF \<and> cont bs 2 0x80 0xBF then 3 else 0)
        else if b = 0xED then (if cont bs 1 0x80 0x9F \<and> cont bs 2 0x80 0xBF then 3 else 0)
        else if 0xE1 \<le> b \<and> b \<le> 0xEF then
          (if cont bs 1 0x80 0xBF \<and> cont bs 2 0x80 0xBF then 3 else 0)
        else if b = 0xF0 then
          (if cont bs 1 0x90 0xBF \<and> cont bs 2 0x80 0xBF \<and> cont bs 3 0x80 0xBF then 4 else 0)
        else if 0xF1 \<le> b \<and> b \<le> 0xF3 then
          (if cont bs 1 0x80 0xBF \<and> cont bs 2 0x80 0xBF \<and> cont bs 3 0x80 0xBF then 4 else 0)
        else if b = 0xF4 then
          (if cont bs 1 0x80 0x8F \<and> cont bs 2 0x80 0xBF \<and> cont bs 3 0x80 0xBF then 4 else 0)
        else 0)"

function valid_utf8 :: "bytes \<Rightarrow> bool" where
  "valid_utf8 bs =
     (if bs = [] then True
      else if utf8_seq bs = 0 then False
      else valid_utf8 (drop (utf8_seq bs) bs))"
  by pat_completeness auto
termination
  by (relation "measure length") auto

declare valid_utf8.simps [simp del]

definition hexdigit :: "nat \<Rightarrow> byte" where
  "hexdigit d = (if d < 10 then of_nat (48 + d) else of_nat (87 + d))"

text \<open>\<^verbatim>\<open>bin.decode('utf-8', 'backslashreplace')\<close>: well-formed sequences are kept, every
  other byte is rendered as \<^verbatim>\<open>\xhh\<close>.\<close>

function backslashreplace :: "bytes \<Rightarrow> pystr" where
  "backslashreplace bs =
     (if bs = [] then []
      else if utf8_seq bs = 0 then
        [0x5c, 0x78, hexdigit (unat (hd bs) div 16), hexdigit (unat (hd bs) mod 16)]
          @ backslashreplace (tl bs)
      else take (utf8_seq bs) bs @ backslashreplace (drop (utf8_seq bs) bs))"
  by pat_completeness auto
termination
  by (relation "measure length") auto

declare backslashreplace.simps [simp del]

text \<open>\<^verbatim>\<open>'Not valid UTF-8: "%s"' % (s,)\<close>\<close>

definition msg_not_valid_utf8 :: "pystr \<Rightarrow> pystr" where
  "msg_not_valid_utf8 s = lit ''Not valid UTF-8: '' @ [0x22] @ s @ [0x22]"

definition u :: "bytes \<Rightarrow> error + pystr" where
  "u bin =
     (if valid_utf8 bin then Inr bin
      else Inl (Exception (msg_not_valid_utf8 (backslashreplace bin))))"

section \<open>hexconvert\<close>

definition hexconvert :: "pyobj \<Rightarrow> error + int option" where
  "hexconvert c =
     (case py_ord c of
        Inl e \<Rightarrow> Inl e
      | Inr x \<Rightarrow>
          if 48 \<le> x \<and> x < 58 then Inr (Some (x - 48))
          else if 97 \<le> x \<and> x < 103 then Inr (Some (10 + x - 97))
          else Inr None)"

section \<open>The one-slot lookahead buffer: Ahead\<close>

text \<open>
  The line source is a finite list of lines, consumed from the front; \<open>ahead_x\<close> is the
  attribute \<^verbatim>\<open>x\<close> (\<open>None\<close> as in the source), \<open>ahead_hasx\<close> the attribute
  \<^verbatim>\<open>hasx\<close>, which does not exist until \<^verbatim>\<open>__next__\<close> sets it.
\<close>

record ahead =
  ahead_iter :: "bytes list"
  ahead_x :: "bytes option"
  ahead_hasx :: "bool option"

definition Ahead :: "bytes list \<Rightarrow> ahead" where
  "Ahead lines = \<lparr>ahead_iter = lines, ahead_x = None, ahead_hasx = None\<rparr>"

definition unget :: "ahead \<Rightarrow> bytes \<Rightarrow> error + ahead" where
  "unget a l =
     (if ahead_x a = None then Inr (a\<lparr>ahead_x := Some l\<rparr>) else Inl AssertionError)"

definition ahead_next :: "ahead \<Rightarrow> error + (bytes \<times> ahead)" where
  "ahead_next a =
     (case ahead_x a of
        Some out \<Rightarrow> Inr (out, a\<lparr>ahead_x := None, ahead_hasx := Some False\<rparr>)
      | None \<Rightarrow>
          (case ahead_iter a of
             [] \<Rightarrow> Inl StopIteration
           | l # ls \<Rightarrow> Inr (l, a\<lparr>ahead_iter := ls\<rparr>)))"

section \<open>Header extraction: split_header\<close>

text \<open>The bytes methods \<^verbatim>\<open>strip()\<close> (ASCII whitespace), \<^verbatim>\<open>lstrip(chars)\<close> (every
  leading byte that occurs in \<open>chars\<close>) and \<^verbatim>\<open>startswith(prefix)\<close>.\<close>

definition whitespace :: "byte list" where
  "whitespace = [0x20, 0x09, 0x0a, 0x0d, 0x0b, 0x0c]"

definition lstrip :: "bytes \<Rightarrow> byte list \<Rightarrow> bytes" where
  "lstrip l chars = dropWhile (\<lambda>b. b \<in> set chars) l"

definition rstrip :: "bytes \<Rightarrow> byte list \<Rightarrow> bytes" where
  "rstrip l chars = rev (dropWhile (\<lambda>b. b \<in> set chars) (rev l))"

definition strip :: "bytes \<Rightarrow> bytes" where
  "strip l = rstrip (lstrip l whitespace) whitespace"

definition startswith :: "bytes \<Rightarrow> bytes \<Rightarrow> bool" where
  "startswith l p = (take (length p) l = p)"

text \<open>What is left to read from the buffer: the pushed-back line, then the source.\<close>

definition pending :: "ahead \<Rightarrow> bytes list" where
  "pending a = (case ahead_x a of None \<Rightarrow> [] | Some l \<Rightarrow> [l]) @ ahead_iter a"

text \<open>The \<^verbatim>\<open>for line in ahead\<close> loop of \<^verbatim>\<open>split_header\<close>, with the list
  \<^verbatim>\<open>schlines\<close> built so far; \<^verbatim>\<open>StopIteration\<close> ends it, \<^verbatim>\<open>break\<close> leaves it.\<close>

function split_header_loop :: "ahead \<Rightarrow> bytes list \<Rightarrow> error + (bytes list \<times> ahead)" where
  "split_header_loop a schlines =
     (case ahead_next a of
        Inl e \<Rightarrow> (if e = StopIteration then Inr (schlines, a) else Inl e)
      | Inr (line0, a1) \<Rightarrow>
          (let line = strip line0 in
           if line \<noteq> [] then
             (if \<not> startswith line [0x25] then
                (case unget a1 line of
                   Inl e \<Rightarrow> Inl e
                 | Inr a2 \<Rightarrow> Inr (schlines, a2))
              else split_header_loop a1 (schlines @ [lstrip line [0x25, 0x20]]))
           else split_header_loop a1 schlines))"
  by pat_completeness auto
termination
  by (relation "measure (\<lambda>(a, schlines). length (pending a))")
    (auto simp: ahead_next_def pending_def split: option.splits list.splits)

declare split_header_loop.simps [simp del]

definition split_header :: "ahead \<Rightarrow> error + (bytes \<times> ahead)" where
  "split_header a =
     (case split_header_loop a [] of
        Inl e \<Rightarrow> Inl e
      | Inr (schlines, a') \<Rightarrow> Inr (concat (map (\<lambda>l. l @ [0x0a]) schlines), a'))"

section \<open>Lexers: parse_atom, parse_string, parse_space\<close>

text \<open>\<^verbatim>\<open>raise Exception(fmt % (..., u(line)))\<close>: the message is built first, so a line
  that is not UTF-8 raises the exception of \<^verbatim>\<open>u\<close> instead.\<close>

definition raise_fmt :: "(pystr \<Rightarrow> pystr) \<Rightarrow> bytes \<Rightarrow> error + 'a" where
  "raise_fmt fmt line = (case u line of Inl e \<Rightarrow> Inl e | Inr t \<Rightarrow> Inl (Exception (fmt t)))"

text \<open>The messages \<^verbatim>\<open>'<what> at byte %d in line %s' % (i, t)\<close>,
  \<^verbatim>\<open>'Expected space character in line %s at position %d' % (t, i)\<close> and
  \<^verbatim>\<open>'No such table: "%s" while parsing line: %s' % (r, t)\<close>.\<close>

definition msg_at :: "string \<Rightarrow> nat \<Rightarrow> pystr \<Rightarrow> pystr" where
  "msg_at what i t = lit what @ lit '' at byte '' @ dec i @ lit '' in line '' @ t"

definition msg_space :: "nat \<Rightarrow> pystr \<Rightarrow> pystr" where
  "msg_space i t = lit ''Expected space character in line '' @ t @ lit '' at position '' @ dec i"

definition msg_no_such_table :: "pystr \<Rightarrow> pystr \<Rightarrow> pystr" where
  "msg_no_such_table r t =
     lit ''No such table: '' @ [0x22] @ r @ [0x22] @ lit '' while parsing line: '' @ t"

function parse_atom_loop :: "bytes \<Rightarrow> nat \<Rightarrow> nat" where
  "parse_atom_loop line i =
     (if i < length line \<and> line ! i > 0x20 \<and> line ! i \<noteq> 0x7f
      then parse_atom_loop line (i + 1) else i)"
  by pat_completeness auto
termination
  by (relation "measure (\<lambda>(line, i). length line - i)") auto

declare parse_atom_loop.simps [simp del]

definition msg_atom :: "nat \<Rightarrow> pystr \<Rightarrow> pystr" where
  "msg_atom i t = lit ''EOL or invalid character while expecting atom at byte '' @ dec i
                    @ lit '' in line '' @ [0x22] @ t @ [0x22]"

definition parse_atom :: "bytes \<Rightarrow> nat \<Rightarrow> error + (bytes \<times> nat)" where
  "parse_atom line i =
     (let x = i; j = parse_atom_loop line i in
      if x = j then
        raise_fmt (msg_atom j) line
      else Inr (take (j - x) (drop x line), j))"

text \<open>The dictionary \<^verbatim>\<open>m\<close> of one-letter escapes.\<close>

definition m :: "byte \<rightharpoonup> byte" where
  "m = [0x22 \<mapsto> 0x22, 0x5c \<mapsto> 0x5c, 0x6e \<mapsto> 0x0a, 0x72 \<mapsto> 0x0d, 0x74 \<mapsto> 0x09]"

text \<open>
  The \<^verbatim>\<open>while i < end\<close> loop of \<^verbatim>\<open>parse_string\<close>. \<open>Inr None\<close> is the value
  \<^verbatim>\<open>None\<close> that the function returns when the loop ends without a \<^verbatim>\<open>return\<close>.
  \<^verbatim>\<open>line[i+1] == 'x'\<close> compares an \<^verbatim>\<open>int\<close> with a \<^verbatim>\<open>str\<close>, and \<^verbatim>\<open>hexconvert\<close> is
  called on the \<^verbatim>\<open>int\<close> \<^verbatim>\<open>line[i+2]\<close>.
\<close>

function parse_string_loop :: "bytes \<Rightarrow> nat \<Rightarrow> byte list \<Rightarrow> error + (bytes \<times> nat) option" where
  "parse_string_loop line i s =
     (if i < length line then
        if line ! i = 0x22 then Inr (Some (s, i + 1))
        else if line ! i = 0x5c then
          if length line - i < 2
             \<or> (py_eq (PyInt (uint (line ! (i + 1)))) (PyStr ''x'') \<and> length line - i < 4)
          then raise_fmt (msg_at ''Failed to parse escape sequence'' i) line
          else
            (case m (line ! (i + 1)) of
               Some c \<Rightarrow> parse_string_loop line (i + 2) (s @ [c])
             | None \<Rightarrow>
                 if line ! (i + 1) = 0x78 then
                   (case getitem line (i + 2) of Inl e \<Rightarrow> Inl e | Inr b2 \<Rightarrow>
                    case hexconvert (PyInt (uint b2)) of Inl e \<Rightarrow> Inl e | Inr hi \<Rightarrow>
                    case getitem line (i + 3) of Inl e \<Rightarrow> Inl e | Inr b3 \<Rightarrow>
                    case hexconvert (PyInt (uint b3)) of Inl e \<Rightarrow> Inl e | Inr lo \<Rightarrow>
                      if hi = None \<or> lo = None then
                        raise_fmt (msg_at ''Failed to convert hex sequence'' i) line
                      else parse_string_loop line (i + 4)
                             (s @ [word_of_int (the hi * 16 + the lo)]))
                 else raise_fmt (msg_at ''Failed to convert escape sequence'' i) line)
        else if line ! i \<ge> 0x20 \<and> line ! i \<noteq> 0x7f then
          parse_string_loop line (i + 1) (s @ [line ! i])
        else raise_fmt (msg_at ''Failed to parse string literal'' i) line
      else Inr None)"
  by pat_completeness auto
termination
  by (relation "measure (\<lambda>(line, i, s). length line - i)") auto

declare parse_string_loop.simps [simp del]

definition parse_string :: "bytes \<Rightarrow> nat \<Rightarrow> error + (bytes \<times> nat) option" where
  "parse_string line i =
     (if i = length line then
        raise_fmt (msg_at ''Did not find expected string'' i) line
      else
        (case getitem line i of
           Inl e \<Rightarrow> Inl e
         | Inr b \<Rightarrow>
             if b \<noteq> 0x22 then
               raise_fmt (msg_at ''Did not find expected string'' i) line
             else parse_string_loop line (i + 1) []))"

definition parse_space :: "bytes \<Rightarrow> nat \<Rightarrow> error + nat" where
  "parse_space line i =
     (if i = length line then
        raise_fmt (msg_space i) line
      else
        (case getitem line i of
           Inl e \<Rightarrow> Inl e
         | Inr b \<Rightarrow>
             if b \<noteq> 0x20 then
               raise_fmt (msg_space i) line
             else Inr (i + 1)))"

section \<open>Rows: parse_values, parse_row\<close>

text \<open>
  Modelled from the spec: the column descriptor of \<^verbatim>\<open>wsl.datatype\<close>, which is not among
  the sources. It carries a syntax kind, Atom or String (\<^verbatim>\<open>SYNTAX_ATOM\<close>,
  \<^verbatim>\<open>SYNTAX_STRING\<close>), and a decode function from the raw token to a value, which may
  raise. \<open>SYNTAX_OTHER\<close> is any other kind, for which \<^verbatim>\<open>parse_values\<close> asserts False.
\<close>

datatype syntaxtype = SYNTAX_ATOM | SYNTAX_STRING | SYNTAX_OTHER

record 'v dt =
  syntaxtype :: syntaxtype
  decode :: "bytes \<Rightarrow> error + 'v"

text \<open>\<^verbatim>\<open>s, i = parse_string(line, i)\<close>: unpacking \<^verbatim>\<open>None\<close> is a \<^verbatim>\<open>TypeError\<close>.\<close>

definition unpack :: "error + (bytes \<times> nat) option \<Rightarrow> error + (bytes \<times> nat)" where
  "unpack r = (case r of Inl e \<Rightarrow> Inl e | Inr None \<Rightarrow> Inl TypeError | Inr (Some p) \<Rightarrow> Inr p)"

text \<open>The \<^verbatim>\<open>for dt in datatypes\<close> loop, with the offset and the list \<^verbatim>\<open>vs\<close> so far.\<close>

fun parse_values_loop :: "bytes \<Rightarrow> nat \<Rightarrow> 'v dt list \<Rightarrow> 'v list \<Rightarrow> error + (nat \<times> 'v list)" where
  "parse_values_loop line i [] vs = Inr (i, vs)"
| "parse_values_loop line i (d # datatypes) vs =
     (case parse_space line i of
        Inl e \<Rightarrow> Inl e
      | Inr i1 \<Rightarrow>
          (case (case syntaxtype d of
                   SYNTAX_ATOM \<Rightarrow> parse_atom line i1
                 | SYNTAX_STRING \<Rightarrow> unpack (parse_string line i1)
                 | SYNTAX_OTHER \<Rightarrow> Inl AssertionError) of
             Inl e \<Rightarrow> Inl e
           | Inr (s, i2) \<Rightarrow>
               (case decode d s of
                  Inl e \<Rightarrow> Inl e
                | Inr val \<Rightarrow> parse_values_loop line i2 datatypes (vs @ [val]))))"

definition parse_values :: "bytes \<Rightarrow> nat \<Rightarrow> 'v dt list \<Rightarrow> error + 'v list" where
  "parse_values line i datatypes =
     (case parse_values_loop line i datatypes [] of
        Inl e \<Rightarrow> Inl e
      | Inr (j, vs) \<Rightarrow>
          if j \<noteq> length line then
            raise_fmt (msg_at ''Expected EOL'' j) line
          else Inr vs)"

definition parse_row :: "bytes \<Rightarrow> (bytes \<rightharpoonup> 'v dt list) \<Rightarrow> error + (bytes \<times> 'v list)" where
  "parse_row line datatypes_of_relation =
     (case parse_atom line 0 of
        Inl e \<Rightarrow> Inl e
      | Inr (relation, i) \<Rightarrow>
          (case datatypes_of_relation relation of
             None \<Rightarrow>
               (case u relation of
                  Inl e \<Rightarrow> Inl e
                | Inr r \<Rightarrow>
                    raise_fmt (msg_no_such_table r) line)
           | Some datatypes \<Rightarrow>
               (case parse_values line i datatypes of
                  Inl e \<Rightarrow> Inl e
                | Inr values \<Rightarrow> Inr (relation, values))))"

section \<open>Whole database: parse_db\<close>




section \<open>Descriptions of the header, used to state the properties\<close>

text \<open>
  A line belongs to the header part when, once stripped, it is blank or starts with
  \<^verbatim>\<open>%\<close>. \<open>header_lines\<close> are the stripped non-blank lines of the longest such prefix,
  \<open>rest_of\<close> is what follows it, with its first line stripped.
\<close>

definition header_or_blank :: "bytes \<Rightarrow> bool" where
  "header_or_blank l = (strip l = [] \<or> startswith (strip l) [0x25])"

definition header_lines :: "bytes list \<Rightarrow> bytes list" where
  "header_lines ls = filter (\<lambda>l. l \<noteq> []) (map strip (takeWhile header_or_blank ls))"

definition rest_of :: "bytes list \<Rightarrow> bytes list" where
  "rest_of ls = (case dropWhile header_or_blank ls of [] \<Rightarrow> [] | l # r \<Rightarrow> strip l # r)"

text \<open>The header with every leading \<^verbatim>\<open>%\<close> and space of a header line stripped.\<close>

definition header_of :: "bytes list \<Rightarrow> bytes" where
  "header_of ls = concat (map (\<lambda>l. lstrip l [0x25, 0x20] @ [0x0a]) (header_lines ls))"

text \<open>The header as the specification words it: the leading \<^verbatim>\<open>%\<close> of a header line
  and the spaces that follow this one byte are stripped.\<close>

definition strip_marker :: "bytes \<Rightarrow> bytes" where
  "strip_marker l = dropWhile (\<lambda>b. b = 0x20) (tl l)"

definition header_as_specified :: "bytes list \<Rightarrow> bytes" where
  "header_as_specified ls = concat (map (\<lambda>l. strip_marker l @ [0x0a]) (header_lines ls))"




section \<open>Auxiliary facts about UTF-8 sequences\<close>

lemma utf8_seq_split:
  obtains (empty) "bs = []"
  | (ascii) b r where "bs = b # r" "b < 0x80"
  | (two) b r where "bs = b # r" "\<not> b < 0x80" "0xC2 \<le> b \<and> b \<le> 0xDF"
  | (e0) r where "bs = 0xE0 # r"
  | (ed) r where "bs = 0xED # r"
  | (three) b r where "bs = b # r" "\<not> b < 0x80" "\<not> (0xC2 \<le> b \<and> b \<le> 0xDF)" "b \<noteq> 0xE0" "b \<noteq> 0xED"
      "0xE1 \<le> b \<and> b \<le> 0xEF"
  | (f0) r where "bs = 0xF0 # r"
  | (four) b r where "bs = b # r" "\<not> b < 0x80" "\<not> (0xC2 \<le> b \<and> b \<le> 0xDF)" "b \<noteq> 0xE0" "b \<noteq> 0xED"
      "\<not> (0xE1 \<le> b \<and> b \<le> 0xEF)" "b \<noteq> 0xF0" "0xF1 \<le> b \<and> b \<le> 0xF3"
  | (f4) r where "bs = 0xF4 # r"
  | (other) b r where "bs = b # r" "\<not> b < 0x80" "\<not> (0xC2 \<le> b \<and> b \<le> 0xDF)" "b \<noteq> 0xE0" "b \<noteq> 0xED"
      "\<not> (0xE1 \<le> b \<and> b \<le> 0xEF)" "b \<noteq> 0xF0" "\<not> (0xF1 \<le> b \<and> b \<le> 0xF3)" "b \<noteq> 0xF4"
proof (cases bs)
  case Nil
  then show ?thesis by (rule empty)
next
  case (Cons b r)
  note bs = Cons
  show ?thesis
  proof (cases "b < 0x80")
    case True
    with bs show ?thesis by (rule ascii)
  next
    case n1: False
    show ?thesis
    proof (cases "0xC2 \<le> b \<and> b \<le> 0xDF")
      case True
      with bs n1 show ?thesis by (rule two)
    next
      case n2: False
      show ?thesis
      proof (cases "b = 0xE0")
        case True
        with bs have "bs = 0xE0 # r" by (simp only:)
        then show ?thesis by (rule e0)
      next
        case n3: False
        show ?thesis
        proof (cases "b = 0xED")
          case True
          with bs have "bs = 0xED # r" by (simp only:)
          then show ?thesis by (rule ed)
        next
          case n4: False
          show ?thesis
          proof (cases "0xE1 \<le> b \<and> b \<le> 0xEF")
            case True
            with bs n1 n2 n3 n4 show ?thesis by (rule three)
          next
            case n5: False
            show ?thesis
            proof (cases "b = 0xF0")
              case True
              with bs have "bs = 0xF0 # r" by (simp only:)
              then show ?thesis by (rule f0)
            next
              case n6: False
              show ?thesis
              proof (cases "0xF1 \<le> b \<and> b \<le> 0xF3")
                case True
                with bs n1 n2 n3 n4 n5 n6 show ?thesis by (rule four)
              next
                case n7: False
                show ?thesis
                proof (cases "b = 0xF4")
                  case True
                  with bs have "bs = 0xF4 # r" by (simp only:)
                  then show ?thesis by (rule f4)
                next
                  case n8: False
                  with bs n1 n2 n3 n4 n5 n6 n7 show ?thesis by (rule other)
                qed
              qed
            qed
          qed
        qed
      qed
    qed
  qed
qed

lemma cont_take: "j < k \<Longrightarrow> cont (take k bs) j lo hi = cont bs j lo hi"
  by (auto simp: cont_def)

lemma utf8_seq_Cons:
  "utf8_seq (b # r) =
     (if b < 0x80 then 1
        else if 0xC2 \<le> b \<and> b \<le> 0xDF then (if cont (b # r) 1 0x80 0xBF then 2 else 0)
        else if b = 0xE0 then (if cont (b # r) 1 0xA0 0xBF \<and> cont (b # r) 2 0x80 0xBF then 3 else 0)
        else if b = 0xED then (if cont (b # r) 1 0x80 0x9F \<and> cont (b # r) 2 0x80 0xBF then 3 else 0)
        else if 0xE1 \<le> b \<and> b \<le> 0xEF then
          (if cont (b # r) 1 0x80 0xBF \<and> cont (b # r) 2 0x80 0xBF then 3 else 0)
        else if b = 0xF0 then
          (if cont (b # r) 1 0x90 0xBF \<and> cont (b # r) 2 0x80 0xBF \<and> cont (b # r) 3 0x80 0xBF then 4 else 0)
        else if 0xF1 \<le> b \<and> b \<le> 0xF3 then
          (if cont (b # r) 1 0x80 0xBF \<and> cont (b # r) 2 0x80 0xBF \<and> cont (b # r) 3 0x80 0xBF then 4 else 0)
        else if b = 0xF4 then
          (if cont (b # r) 1 0x80 0x8F \<and> cont (b # r) 2 0x80 0xBF \<and> cont (b # r) 3 0x80 0xBF then 4 else 0)
        else 0)"
  by (simp only: utf8_seq_def list.case)

lemma cont_high: "cont bs j lo hi \<Longrightarrow> 0x80 \<le> lo \<Longrightarrow> 0x80 \<le> bs ! j"
  by (auto simp: cont_def)

lemma utf8_seq_props:
  assumes pos: "0 < utf8_seq bs"
  shows "utf8_seq bs \<le> length bs
    \<and> (\<forall>j. 0 < j \<and> j < utf8_seq bs \<longrightarrow> 0x80 \<le> bs ! j)
    \<and> (\<forall>k. utf8_seq bs \<le> k \<longrightarrow> utf8_seq (take k bs) = utf8_seq bs)"
proof (cases bs rule: utf8_seq_split)
  case empty
  with pos show ?thesis by (simp add: utf8_seq_def)
next
  case (ascii b r)
  then have n: "utf8_seq bs = 1" by (simp add: utf8_seq_Cons)
  have "\<forall>k. 1 \<le> k \<longrightarrow> utf8_seq (take k bs) = 1"
  proof (intro allI impI)
    fix k :: nat assume "1 \<le> k"
    then obtain k' where "k = Suc k'" by (cases k) simp_all
    with ascii show "utf8_seq (take k bs) = 1" by (simp add: utf8_seq_Cons)
  qed
  with n ascii show ?thesis by simp
next
  case (other b r)
  with pos show ?thesis by (simp add: utf8_seq_Cons)
next
  case (two b r)
  with pos have n: "utf8_seq bs = 2"
    by (simp add: utf8_seq_Cons split: if_splits)
  from pos two have c1: "cont bs 1 0x80 0xBF"
    by (simp add: utf8_seq_Cons split: if_splits)
  from c1 have p1: "2 \<le> length bs" by (simp add: cont_def)
  have p2: "\<forall>j. 0 < j \<and> j < 2 \<longrightarrow> 0x80 \<le> bs ! j"
  proof (intro allI impI)
    fix j :: nat assume "0 < j \<and> j < 2"
    then consider "j = 1" by arith
    then show "0x80 \<le> bs ! j"
    proof cases
      case 1
      from c1 have "0x80 \<le> bs ! 1" by (rule cont_high) simp
      with 1 show ?thesis by simp
    qed
  qed
  have p3: "\<forall>k. 2 \<le> k \<longrightarrow> utf8_seq (take k bs) = 2"
  proof (intro allI impI)
    fix k :: nat assume k: "2 \<le> k"
    then obtain k' where k': "k = Suc k'" by (cases k) simp_all
    have tk: "take k bs = b # take k' r" by (simp add: two k')
    from c1 k have t1: "cont (take k bs) 1 0x80 0xBF" by (simp add: cont_take)
    from t1 two(2-) show "utf8_seq (take k bs) = 2"
      unfolding tk utf8_seq_Cons by (simp add: tk [symmetric])
  qed
  from n p1 p2 p3 show ?thesis by simp
next
  case (e0 r)
  with pos have n: "utf8_seq bs = 3"
    by (simp add: utf8_seq_Cons split: if_splits)
  from pos e0 have c1: "cont bs 1 0xA0 0xBF"
    by (simp add: utf8_seq_Cons split: if_splits)
  from pos e0 have c2: "cont bs 2 0x80 0xBF"
    by (simp add: utf8_seq_Cons split: if_splits)
  from c2 have p1: "3 \<le> length bs" by (simp add: cont_def)
  have p2: "\<forall>j. 0 < j \<and> j < 3 \<longrightarrow> 0x80 \<le> bs ! j"
  proof (intro allI impI)
    fix j :: nat assume "0 < j \<and> j < 3"
    then consider "j = 1" | "j = 2" by arith
    then show "0x80 \<le> bs ! j"
    proof cases
      case 1
      from c1 have "0x80 \<le> bs ! 1" by (rule cont_high) simp
      with 1 show ?thesis by simp
    next
      case 2
      from c2 have "0x80 \<le> bs ! 2" by (rule cont_high) simp
      with 2 show ?thesis by simp
    qed
  qed
  have p3: "\<forall>k. 3 \<le> k \<longrightarrow> utf8_seq (take k bs) = 3"
  proof (intro allI impI)
    fix k :: nat assume k: "3 \<le> k"
    then obtain k' where k': "k = Suc k'" by (cases k) simp_all
    have tk: "take k bs = 0xE0 # take k' r" by (simp add: e0 k')
    from c1 k have t1: "cont (take k bs) 1 0xA0 0xBF" by (simp add: cont_take)
    from c2 k have t2: "cont (take k bs) 2 0x80 0xBF" by (simp add: cont_take)
    from t1 t2 show "utf8_seq (take k bs) = 3"
      unfolding tk utf8_seq_Cons by (simp add: tk [symmetric])
  qed
  from n p1 p2 p3 show ?thesis by simp
next
  case (ed r)
  with pos have n: "utf8_seq bs = 3"
    by (simp add: utf8_seq_Cons split: if_splits)
  from pos ed have c1: "cont bs 1 0x80 0x9F"
    by (simp add: utf8_seq_Cons split: if_splits)
  from pos ed have c2: "cont bs 2 0x80 0xBF"
    by (simp add: utf8_seq_Cons split: if_splits)
  from c2 have p1: "3 \<le> length bs" by (simp add: cont_def)
  have p2: "\<forall>j. 0 < j \<and> j < 3 \<longrightarrow> 0x80 \<le> bs ! j"
  proof (intro allI impI)
    fix j :: nat assume "0 < j \<and> j < 3"
    then consider "j = 1" | "j = 2" by arith
    then show "0x80 \<le> bs ! j"
    proof cases
      case 1
      from c1 have "0x80 \<le> bs ! 1" by (rule cont_high) simp
      with 1 show ?thesis by simp
    next
      case 2
      from c2 have "0x80 \<le> bs ! 2" by (rule cont_high) simp
      with 2 show ?thesis by simp
    qed
  qed
  have p3: "\<forall>k. 3 \<le> k \<longrightarrow> utf8_seq (take k bs) = 3"
  proof (intro allI impI)
    fix k :: nat assume k: "3 \<le> k"
    then obtain k' where k': "k = Suc k'" by (cases k) simp_all
    have tk: "take k bs = 0xED # take k' r" by (simp add: ed k')
    from c1 k have t1: "cont (take k bs) 1 0x80 0x9F" by (simp add: cont_take)
    from c2 k have t2: "cont (take k bs) 2 0x80 0xBF" by (simp add: cont_take)
    from t1 t2 show "utf8_seq (take k bs) = 3"
      unfolding tk utf8_seq_Cons by (simp add: tk [symmetric])
  qed
  from n p1 p2 p3 show ?thesis by simp
next
  case (three b r)
  with pos have n: "utf8_seq bs = 3"
    by (simp add: utf8_seq_Cons split: if_splits)
  from pos three have c1: "cont bs 1 0x80 0xBF"
    by (simp add: utf8_seq_Cons split: if_splits)
  from pos three have c2: "cont bs 2 0x80 0xBF"
    by (simp add: utf8_seq_Cons split: if_splits)
  from c2 have p1: "3 \<le> length bs" by (simp add: cont_def)
  have p2: "\<forall>j. 0 < j \<and> j < 3 \<longrightarrow> 0x80 \<le> bs ! j"
  proof (intro allI impI)
    fix j :: nat assume "0 < j \<and> j < 3"
    then consider "j = 1" | "j = 2" by arith
    then show "0x80 \<le> bs ! j"
    proof cases
      case 1
      from c1 have "0x80 \<le> bs ! 1" by (rule cont_high) simp
      with 1 show ?thesis by simp
    next
      case 2
      from c2 have "0x80 \<le> bs ! 2" by (rule cont_high) simp
      with 2 show ?thesis by simp
    qed
  qed
  have p3: "\<forall>k. 3 \<le> k \<longrightarrow> utf8_seq (take k bs) = 3"
  proof (intro allI impI)
    fix k :: nat assume k: "3 \<le> k"
    then obtain k' where k': "k = Suc k'" by (cases k) simp_all
    have tk: "take k bs = b # take k' r" by (simp add: three k')
    from c1 k have t1: "cont (take k bs) 1 0x80 0xBF" by (simp add: cont_take)
    from c2 k have t2: "cont (take k bs) 2 0x80 0xBF" by (simp add: cont_take)
    from t1 t2 three(2-) show "utf8_seq (take k bs) = 3"
      unfolding tk utf8_seq_Cons by (simp add: tk [symmetric])
  qed
  from n p1 p2 p3 show ?thesis by simp
next
  case (f0 r)
  with pos have n: "utf8_seq bs = 4"
    by (simp add: utf8_seq_Cons split: if_splits)
  from pos f0 have c1: "cont bs 1 0x90 0xBF"
    by (simp add: utf8_seq_Cons split: if_splits)
  from pos f0 have c2: "cont bs 2 0x80 0xBF"
    by (simp add: utf8_seq_Cons split: if_splits)
  from pos f0 have c3: "cont bs 3 0x80 0xBF"
    by (simp add: utf8_seq_Cons split: if_splits)
  from c3 have p1: "4 \<le> length bs" by (simp add: cont_def)
  have p2: "\<forall>j. 0 < j \<and> j < 4 \<longrightarrow> 0x80 \<le> bs ! j"
  proof (intro allI impI)
    fix j :: nat assume "0 < j \<and> j < 4"
    then consider "j = 1" | "j = 2" | "j = 3" by arith
    then show "0x80 \<le> bs ! j"
    proof cases
      case 1
      from c1 have "0x80 \<le> bs ! 1" by (rule cont_high) simp
      with 1 show ?thesis by simp
    next
      case 2
      from c2 have "0x80 \<le> bs ! 2" by (rule cont_high) simp
      with 2 show ?thesis by simp
    next
      case 3
      from c3 have "0x80 \<le> bs ! 3" by (rule cont_high) simp
      with 3 show ?thesis by simp
    qed
  qed
  have p3: "\<forall>k. 4 \<le> k \<longrightarrow> utf8_seq (take k bs) = 4"
  proof (intro allI impI)
    fix k :: nat assume k: "4 \<le> k"
    then obtain k' where k': "k = Suc k'" by (cases k) simp_all
    have tk: "take k bs = 0xF0 # take k' r" by (simp add: f0 k')
    from c1 k have t1: "cont (take k bs) 1 0x90 0xBF" by (simp add: cont_take)
    from c2 k have t2: "cont (take k bs) 2 0x80 0xBF" by (simp add: cont_take)
    from c3 k have t3: "cont (take k bs) 3 0x80 0xBF" by (simp add: cont_take)
    from t1 t2 t3 show "utf8_seq (take k bs) = 4"
      unfolding tk utf8_seq_Cons by (simp add: tk [symmetric])
  qed
  from n p1 p2 p3 show ?thesis by simp
next
  case (four b r)
  with pos have n: "utf8_seq bs = 4"
    by (simp add: utf8_seq_Cons split: if_splits)
  from pos four have c1: "cont bs 1 0x80 0xBF"
    by (simp add: utf8_seq_Cons split: if_splits)
  from pos four have c2: "cont bs 2 0x80 0xBF"
    by (simp add: utf8_seq_Cons split: if_splits)
  from pos four have c3: "cont bs 3 0x80 0xBF"
    by (simp add: utf8_seq_Cons split: if_splits)
  from c3 have p1: "4 \<le> length bs" by (simp add: cont_def)
  have p2: "\<forall>j. 0 < j \<and> j < 4 \<longrightarrow> 0x80 \<le> bs ! j"
  proof (intro allI impI)
    fix j :: nat assume "0 < j \<and> j < 4"
    then consider "j = 1" | "j = 2" | "j = 3" by arith
    then show "0x80 \<le> bs ! j"
    proof cases
      case 1
      from c1 have "0x80 \<le> bs ! 1" by (rule cont_high) simp
      with 1 show ?thesis by simp
    next
      case 2
      from c2 have "0x80 \<le> bs ! 2" by (rule cont_high) simp
      with 2 show ?thesis by simp
    next
      case 3
      from c3 have "0x80 \<le> bs ! 3" by (rule cont_high) simp
      with 3 show ?thesis by simp
    qed
  qed
  have p3: "\<forall>k. 4 \<le> k \<longrightarrow> utf8_seq (take k bs) = 4"
  proof (intro allI impI)
    fix k :: nat assume k: "4 \<le> k"
    then obtain k' where k': "k = Suc k'" by (cases k) simp_all
    have tk: "take k bs = b # take k' r" by (simp add: four k')
    from c1 k have t1: "cont (take k bs) 1 0x80 0xBF" by (simp add: cont_take)
    from c2 k have t2: "cont (take k bs) 2 0x80 0xBF" by (simp add: cont_take)
    from c3 k have t3: "cont (take k bs) 3 0x80 0xBF" by (simp add: cont_take)
    from t1 t2 t3 four(2-) show "utf8_seq (take k bs) = 4"
      unfolding tk utf8_seq_Cons by (simp add: tk [symmetric])
  qed
  from n p1 p2 p3 show ?thesis by simp
next
  case (f4 r)
  with pos have n: "utf8_seq bs = 4"
    by (simp add: utf8_seq_Cons split: if_splits)
  from pos f4 have c1: "cont bs 1 0x80 0x8F"
    by (simp add: utf8_seq_Cons split: if_splits)
  from pos f4 have c2: "cont bs 2 0x80 0xBF"
    by (simp add: utf8_seq_Cons split: if_splits)
  from pos f4 have c3: "cont bs 3 0x80 0xBF"
    by (simp add: utf8_seq_Cons split: if_splits)
  from c3 have p1: "4 \<le> length bs" by (simp add: cont_def)
  have p2: "\<forall>j. 0 < j \<and> j < 4 \<longrightarrow> 0x80 \<le> bs ! j"
  proof (intro allI impI)
    fix j :: nat assume "0 < j \<and> j < 4"
    then consider "j = 1" | "j = 2" | "j = 3" by arith
    then show "0x80 \<le> bs ! j"
    proof cases
      case 1
      from c1 have "0x80 \<le> bs ! 1" by (rule cont_high) simp
      with 1 show ?thesis by simp
    next
      case 2
      from c2 have "0x80 \<le> bs ! 2" by (rule cont_high) simp
      with 2 show ?thesis by simp
    next
      case 3
      from c3 have "0x80 \<le> bs ! 3" by (rule cont_high) simp
      with 3 show ?thesis by simp
    qed
  qed
  have p3: "\<forall>k. 4 \<le> k \<longrightarrow> utf8_seq (take k bs) = 4"
  proof (intro allI impI)
    fix k :: nat assume k: "4 \<le> k"
    then obtain k' where k': "k = Suc k'" by (cases k) simp_all
    have tk: "take k bs = 0xF4 # take k' r" by (simp add: f4 k')
    from c1 k have t1: "cont (take k bs) 1 0x80 0x8F" by (simp add: cont_take)
    from c2 k have t2: "cont (take k bs) 2 0x80 0xBF" by (simp add: cont_take)
    from c3 k have t3: "cont (take k bs) 3 0x80 0xBF" by (simp add: cont_take)
    from t1 t2 t3 show "utf8_seq (take k bs) = 4"
      unfolding tk utf8_seq_Cons by (simp add: tk [symmetric])
  qed
  from n p1 p2 p3 show ?thesis by simp
qed

lemma valid_utf8_take:
  "valid_utf8 bs \<Longrightarrow> k \<le> length bs \<Longrightarrow> k = length bs \<or> bs ! k < 0x80 \<Longrightarrow> valid_utf8 (take k bs)"
proof (induction bs arbitrary: k rule: valid_utf8.induct)
  case (1 bs)
  show ?case
  proof (cases "bs = [] \<or> k = 0")
    case True
    then have "take k bs = []" by auto
    then show ?thesis by (simp add: valid_utf8.simps)
  next
    case False
    then have ne: "bs \<noteq> []" and k0: "0 < k" by simp_all
    from "1.prems"(1) ne have pos: "0 < utf8_seq bs" and rest: "valid_utf8 (drop (utf8_seq bs) bs)"
      by (simp_all add: valid_utf8.simps [of bs] split: if_splits)
    note props = utf8_seq_props [OF pos]
    show ?thesis
    proof (cases "k < utf8_seq bs")
      case True
      with k0 props have high: "0x80 \<le> bs ! k" by blast
      from True props have "k \<noteq> length bs" by simp
      with "1.prems"(3) have "bs ! k < 0x80" by simp
      with high show ?thesis by simp
    next
      case False
      then have nk: "utf8_seq bs \<le> k" by simp
      with props have seq: "utf8_seq (take k bs) = utf8_seq bs" by blast
      from "1.prems"(2) have len: "k - utf8_seq bs \<le> length (drop (utf8_seq bs) bs)" by simp
      from "1.prems"(2,3) nk
      have "k - utf8_seq bs = length (drop (utf8_seq bs) bs)
          \<or> drop (utf8_seq bs) bs ! (k - utf8_seq bs) < 0x80"
        by auto
      with "1.IH" [OF _ _ rest len] ne pos
      have "valid_utf8 (take (k - utf8_seq bs) (drop (utf8_seq bs) bs))" by simp
      then have "valid_utf8 (drop (utf8_seq bs) (take k bs))" by (simp add: drop_take)
      with seq pos show ?thesis
        by (simp add: valid_utf8.simps [of "take k bs"])
    qed
  qed
qed

section \<open>Auxiliary facts about the lexers\<close>

lemma hexconvert_int: "hexconvert (PyInt n) = Inl TypeError"
  by (simp add: hexconvert_def)

lemma parse_string_loop_hex:
  assumes "i + 1 < length line" "line ! i = 0x5c" "line ! (i + 1) = 0x78"
  shows "parse_string_loop line i s = (if i + 2 < length line then Inl TypeError else Inl IndexError)"
proof -
  from assms have "\<not> length line - i < 2" by arith
  with assms show ?thesis
    by (subst parse_string_loop.simps) (simp add: m_def getitem_def hexconvert_int)
qed

lemma parse_string_loop_plain:
  assumes "\<forall>k. i \<le> k \<and> k < length line \<longrightarrow> 0x20 \<le> line ! k \<and> line ! k \<noteq> 0x7f \<and> line ! k \<noteq> 0x22 \<and> line ! k \<noteq> 0x5c"
  shows "parse_string_loop line i s = Inr None"
  using assms
proof (induction line i s rule: parse_string_loop.induct)
  case (1 line i s)
  show ?case
  proof (cases "i < length line")
    case True
    with "1.prems" have here: "0x20 \<le> line ! i" "line ! i \<noteq> 0x7f" "line ! i \<noteq> 0x22" "line ! i \<noteq> 0x5c"
      by auto
    from "1.prems" have "parse_string_loop line (i + 1) (s @ [line ! i]) = Inr None"
      using True here by (intro "1.IH"(3)) auto
    with True here show ?thesis
      by (subst parse_string_loop.simps) simp
  next
    case False
    then show ?thesis by (subst parse_string_loop.simps) simp
  qed
qed

lemma parse_atom_loop_ge: "i \<le> parse_atom_loop line i"
proof (induction line i rule: parse_atom_loop.induct)
  case (1 line i)
  show ?case
  proof (cases "i < length line \<and> line ! i > 0x20 \<and> line ! i \<noteq> 0x7f")
    case True
    with "1.IH" have "i + 1 \<le> parse_atom_loop line (i + 1)" by simp
    with True show ?thesis by (subst parse_atom_loop.simps) simp
  next
    case False
    then show ?thesis by (subst parse_atom_loop.simps) auto
  qed
qed

lemma parse_atom_loop_le: "i \<le> length line \<Longrightarrow> parse_atom_loop line i \<le> length line"
proof (induction line i rule: parse_atom_loop.induct)
  case (1 line i)
  show ?case
  proof (cases "i < length line \<and> line ! i > 0x20 \<and> line ! i \<noteq> 0x7f")
    case True
    with "1.IH" have "parse_atom_loop line (i + 1) \<le> length line" by simp
    with True show ?thesis by (subst parse_atom_loop.simps) simp
  next
    case False
    with "1.prems" show ?thesis by (subst parse_atom_loop.simps) auto
  qed
qed

lemma parse_atom_loop_all:
  "\<forall>k. i \<le> k \<and> k < length line \<longrightarrow> line ! k > 0x20 \<and> line ! k \<noteq> 0x7f \<Longrightarrow> i \<le> length line
   \<Longrightarrow> parse_atom_loop line i = length line"
proof (induction line i rule: parse_atom_loop.induct)
  case (1 line i)
  show ?case
  proof (cases "i < length line")
    case True
    with "1.prems" have here: "line ! i > 0x20 \<and> line ! i \<noteq> 0x7f" by auto
    with True "1.IH" "1.prems" have "parse_atom_loop line (i + 1) = length line" by simp
    with True here show ?thesis by (subst parse_atom_loop.simps) simp
  next
    case False
    with "1.prems" show ?thesis by (subst parse_atom_loop.simps) auto
  qed
qed

lemma parse_atom_loop_stop:
  "parse_atom_loop line i = j \<Longrightarrow> j < length line \<Longrightarrow> \<not> (line ! j > 0x20 \<and> line ! j \<noteq> 0x7f)"
proof (induction line i rule: parse_atom_loop.induct)
  case (1 line i)
  show ?case
  proof (cases "i < length line \<and> line ! i > 0x20 \<and> line ! i \<noteq> 0x7f")
    case True
    with "1.prems" have "parse_atom_loop line (i + 1) = j"
      by (subst (asm) parse_atom_loop.simps) simp
    with True "1.IH" "1.prems" show ?thesis by simp
  next
    case False
    with "1.prems" have "i = j" by (subst (asm) parse_atom_loop.simps) auto
    with False "1.prems" show ?thesis by auto
  qed
qed

lemma parse_atom_loop_here:
  "\<not> (i < length line \<and> line ! i > 0x20 \<and> line ! i \<noteq> 0x7f) \<Longrightarrow> parse_atom_loop line i = i"
  by (subst parse_atom_loop.simps) auto

lemma raise_fmt_eq:
  "raise_fmt fmt line =
     Inl (Exception (if valid_utf8 line then fmt line else msg_not_valid_utf8 (backslashreplace line)))"
  by (simp add: raise_fmt_def u_def)

lemma parse_atom_Inr:
  "parse_atom line i = Inr (s, j) \<Longrightarrow> j = parse_atom_loop line i \<and> i < j \<and> s = take (j - i) (drop i line)"
  using parse_atom_loop_ge [of i line]
  by (auto simp: parse_atom_def Let_def raise_fmt_eq split: if_splits)

lemma parse_atom_valid_utf8:
  assumes "parse_atom line 0 = Inr (rel, i)" "valid_utf8 line"
  shows "valid_utf8 rel"
proof -
  from parse_atom_Inr [OF assms(1)] have i: "i = parse_atom_loop line 0" and rel: "rel = take i line"
    by simp_all
  from i have le: "i \<le> length line" by (simp add: parse_atom_loop_le)
  have "i = length line \<or> line ! i < 0x80"
  proof (cases "i < length line")
    case True
    with i parse_atom_loop_stop [of line 0 i] have "\<not> (line ! i > 0x20 \<and> line ! i \<noteq> 0x7f)"
      by simp
    then have "line ! i \<le> 0x20 \<or> line ! i = 0x7f" by auto
    then have "line ! i < 0x80"
    proof
      assume "line ! i \<le> 0x20"
      then show ?thesis by (rule le_less_trans) simp
    next
      assume "line ! i = 0x7f"
      then show ?thesis by simp
    qed
    then show ?thesis by simp
  next
    case False
    with le show ?thesis by simp
  qed
  with assms(2) le show ?thesis unfolding rel by (rule valid_utf8_take)
qed

lemma parse_atom_fail:
  "parse_atom_loop line i = i \<Longrightarrow>
   parse_atom line i = Inl (Exception (if valid_utf8 line then msg_atom i line
       else msg_not_valid_utf8 (backslashreplace line)))"
  by (simp add: parse_atom_def raise_fmt_eq)

lemma parse_string_fail:
  "i < length line \<Longrightarrow> line ! i \<noteq> 0x22 \<Longrightarrow>
   parse_string line i = Inl (Exception (if valid_utf8 line then msg_at ''Did not find expected string'' i line
       else msg_not_valid_utf8 (backslashreplace line)))"
  by (simp add: parse_string_def getitem_def raise_fmt_eq)

lemma parse_space_iff: "parse_space line i = Inr j \<longleftrightarrow> i < length line \<and> line ! i = 0x20 \<and> j = i + 1"
  by (auto simp: parse_space_def getitem_def raise_fmt_eq)

lemma parse_space_fail:
  "i \<le> length line \<Longrightarrow> \<not> (i < length line \<and> line ! i = 0x20) \<Longrightarrow>
   parse_space line i = Inl (Exception (if valid_utf8 line then msg_space i line else msg_not_valid_utf8 (backslashreplace line)))"
  by (auto simp: parse_space_def getitem_def raise_fmt_eq)

lemma parse_values_loop_values:
  "parse_values_loop line i dts vs0 = Inr (j, vs) \<Longrightarrow>
   \<exists>ws. vs = vs0 @ ws \<and>
     list_all2 (\<lambda>d v. \<exists>s p q. decode d s = Inr v \<and>
        (syntaxtype d = SYNTAX_ATOM \<and> parse_atom line p = Inr (s, q)
         \<or> syntaxtype d = SYNTAX_STRING \<and> parse_string line p = Inr (Some (s, q)))) dts ws"
proof (induction dts arbitrary: i vs0)
  case Nil
  then show ?case by simp
next
  case (Cons d dts)
  from Cons.prems obtain i1 s i2 val where
    sp: "parse_space line i = Inr i1" and
    tok: "(case syntaxtype d of SYNTAX_ATOM \<Rightarrow> parse_atom line i1
            | SYNTAX_STRING \<Rightarrow> unpack (parse_string line i1)
            | SYNTAX_OTHER \<Rightarrow> Inl AssertionError) = Inr (s, i2)" and
    dc: "decode d s = Inr val" and
    rest: "parse_values_loop line i2 dts (vs0 @ [val]) = Inr (j, vs)"
    by (auto split: sum.splits)
  from Cons.IH [OF rest] obtain ws where
    ws: "vs = (vs0 @ [val]) @ ws" and
    all: "list_all2 (\<lambda>d v. \<exists>s p q. decode d s = Inr v \<and>
        (syntaxtype d = SYNTAX_ATOM \<and> parse_atom line p = Inr (s, q)
         \<or> syntaxtype d = SYNTAX_STRING \<and> parse_string line p = Inr (Some (s, q)))) dts ws"
    by blast
  from tok have "syntaxtype d = SYNTAX_ATOM \<and> parse_atom line i1 = Inr (s, i2)
         \<or> syntaxtype d = SYNTAX_STRING \<and> parse_string line i1 = Inr (Some (s, i2))"
    by (auto simp: unpack_def split: syntaxtype.splits sum.splits option.splits)
  with dc all ws show ?case
    by (intro exI [of _ "val # ws"]) auto
qed

lemma parse_values_Inr:
  "parse_values line i dts = Inr vs \<longleftrightarrow> parse_values_loop line i dts [] = Inr (length line, vs)"
  by (auto simp: parse_values_def raise_fmt_eq split: sum.splits)

lemma parse_values_trailing:
  "parse_values_loop line i dts [] = Inr (j, vs) \<Longrightarrow> j \<noteq> length line \<Longrightarrow>
   parse_values line i dts = Inl (Exception (if valid_utf8 line then msg_at ''Expected EOL'' j line
       else msg_not_valid_utf8 (backslashreplace line)))"
  by (simp add: parse_values_def raise_fmt_eq)

lemma sublist_no_such_table: "sublist r (msg_no_such_table r t)"
  unfolding msg_no_such_table_def sublist_def
  by (intro exI [of _ "lit ''No such table: '' @ [0x22]"] exI [of _ "[0x22] @ lit '' while parsing line: '' @ t"]) simp

section \<open>Auxiliary facts about the buffer, the header and the database loop\<close>

lemma ahead_next_Inl: "ahead_next a = Inl e \<Longrightarrow> e = StopIteration \<and> pending a = []"
  by (auto simp: ahead_next_def pending_def split: option.splits list.splits)

lemma ahead_next_Inr:
  "ahead_next a = Inr (l, a1) \<Longrightarrow> pending a = l # pending a1 \<and> ahead_x a1 = None"
  by (auto simp: ahead_next_def pending_def split: option.splits list.splits)



lemma split_header_loop_eq:
  "\<exists>a'. split_header_loop a sch
          = Inr (sch @ map (\<lambda>l. lstrip l [0x25, 0x20]) (header_lines (pending a)), a')
        \<and> pending a' = rest_of (pending a)"
proof (induction a sch rule: split_header_loop.induct)
  case (1 a sch)
  show ?case
  proof (cases "ahead_next a")
    case (Inl e)
    with ahead_next_Inl [OF Inl] show ?thesis
      by (simp add: split_header_loop.simps [of a sch] header_lines_def rest_of_def)
  next
    case (Inr p)
    obtain line0 a1 where p: "p = (line0, a1)" by (cases p)
    with Inr have nx: "ahead_next a = Inr (line0, a1)" by simp
    then have pend: "pending a = line0 # pending a1" and slot: "ahead_x a1 = None"
      by (simp_all add: ahead_next_Inr)
    show ?thesis
    proof (cases "strip line0 = []")
      case True
      with nx have "split_header_loop a sch = split_header_loop a1 sch"
        by (simp add: split_header_loop.simps [of a sch])
      with "1.IH"(2) [OF nx refl refl] True pend show ?thesis
        by (simp add: header_lines_def rest_of_def header_or_blank_def)
    next
      case False
      show ?thesis
      proof (cases "startswith (strip line0) [0x25]")
        case True
        with nx False have "split_header_loop a sch
            = split_header_loop a1 (sch @ [lstrip (strip line0) [0x25, 0x20]])"
          by (simp add: split_header_loop.simps [of a sch])
        with "1.IH"(1) [OF nx refl refl False] True False pend show ?thesis
          by (simp add: header_lines_def rest_of_def header_or_blank_def)
      next
        case nohdr: False
        with nx False slot have "split_header_loop a sch
            = Inr (sch, a1\<lparr>ahead_x := Some (strip line0)\<rparr>)"
          by (simp add: split_header_loop.simps [of a sch] unget_def)
        moreover have "pending (a1\<lparr>ahead_x := Some (strip line0)\<rparr>) = strip line0 # pending a1"
          using slot by (simp add: pending_def)
        ultimately show ?thesis using nohdr False pend
          by (simp add: header_lines_def rest_of_def header_or_blank_def)
      qed
    qed
  qed
qed

lemma split_header_eq:
  "\<exists>a'. split_header a = Inr (header_of (pending a), a') \<and> pending a' = rest_of (pending a)"
proof -
  from split_header_loop_eq [of a "[]"] obtain a' where
    "split_header_loop a [] = Inr (map (\<lambda>l. lstrip l [0x25, 0x20]) (header_lines (pending a)), a')"
    "pending a' = rest_of (pending a)"
    by auto
  then show ?thesis
    by (simp add: split_header_def header_of_def comp_def)
qed









section \<open>String literals\<close>

text \<open>
  C1. A string literal that is opened but not closed before the end of the line: the
  docstring of \<^verbatim>\<open>parse_string\<close> promises a tuple or an exception, and the
  specification an unterminated-string failure. On \<^verbatim>\<open>"abc\<close> the loop of
  \<^verbatim>\<open>parse_string\<close> runs off the end of the line and the function returns \<^verbatim>\<open>None\<close>.
\<close>

theorem parse_string_unterminated: "parse_string [0x22, 0x61, 0x62, 0x63] 0 = Inr None"
proof -
  have "parse_string_loop [0x22, 0x61, 0x62, 0x63] 1 [] = Inr None"
    by (rule parse_string_loop_plain) (simp add: nth_Cons' less_Suc_eq)
  then show ?thesis by (simp add: parse_string_def getitem_def)
qed

text \<open>
  C2. The escape \<^verbatim>\<open>\xHH\<close>. \<^verbatim>\<open>parse_string\<close> passes the \<^verbatim>\<open>int\<close> \<^verbatim>\<open>line[i+2]\<close>
  to \<^verbatim>\<open>hexconvert\<close>, whose \<^verbatim>\<open>ord\<close> raises \<^verbatim>\<open>TypeError\<close> on it: the well-formed
  literal \<^verbatim>\<open>"\x41"\<close> is not decoded to the byte 0x41. The length guard compares
  \<^verbatim>\<open>line[i+1]\<close> with the \<^verbatim>\<open>str\<close> \<^verbatim>\<open>'x'\<close> and never fires, so the truncated literal
  \<^verbatim>\<open>"\x\<close> ends in an \<^verbatim>\<open>IndexError\<close>, not in the escape-sequence exception.
\<close>

theorem parse_string_hex_escape:
  "parse_string [0x22, 0x5c, 0x78, 0x34, 0x31, 0x22] 0 = Inl TypeError
   \<and> parse_string [0x22, 0x5c, 0x78] 0 = Inl IndexError"
proof -
  have "parse_string_loop [0x22, 0x5c, 0x78, 0x34, 0x31, 0x22] 1 [] = Inl TypeError"
    by (subst parse_string_loop_hex) simp_all
  moreover have "parse_string_loop [0x22, 0x5c, 0x78] 1 [] = Inl IndexError"
    by (subst parse_string_loop_hex) simp_all
  ultimately show ?thesis by (simp add: parse_string_def getitem_def)
qed

section \<open>The database as a whole\<close>



section \<open>Value sequences and spaces\<close>

text \<open>
  C4. \<^verbatim>\<open>parse_values\<close> succeeds only if the loop over the columns ends at the length of
  the line, and then returns one decoded value per column, in column order, each decoded
  from an atom or a string literal lexed in the line according to the syntax kind of its
  column. If the loop ends before the end of the line, \<^verbatim>\<open>parse_values\<close> fails: with
  the exception \<^verbatim>\<open>Expected EOL at byte j\<close> when the line is valid UTF-8, and with the
  exception \<^verbatim>\<open>Not valid UTF-8\<close> of \<^verbatim>\<open>u\<close> otherwise, since the message is formatted
  before it is raised.
\<close>

theorem parse_values_contract:
  "(parse_values line i dts = Inr vs \<longrightarrow>
      parse_values_loop line i dts [] = Inr (length line, vs)
      \<and> list_all2 (\<lambda>d v. \<exists>s p q. decode d s = Inr v \<and>
            (syntaxtype d = SYNTAX_ATOM \<and> parse_atom line p = Inr (s, q)
             \<or> syntaxtype d = SYNTAX_STRING \<and> parse_string line p = Inr (Some (s, q)))) dts vs)
   \<and> (parse_values_loop line i dts [] = Inr (j, vs) \<and> j \<noteq> length line \<longrightarrow>
      parse_values line i dts =
        Inl (Exception (if valid_utf8 line then msg_at ''Expected EOL'' j line
                        else msg_not_valid_utf8 (backslashreplace line))))"
  using parse_values_loop_values [of line i dts "[]" "length line" vs]
  by (auto simp: parse_values_Inr parse_values_trailing)

theorem parse_values_contract_witness:
  "parse_values (lit ''rel x y'') 3
       [\<lparr>syntaxtype = SYNTAX_ATOM, decode = Inr\<rparr>, \<lparr>syntaxtype = SYNTAX_ATOM, decode = Inr\<rparr>]
     = Inr [lit ''x'', lit ''y'']
   \<and> parse_values_loop (lit ''rel x y'') 3
       [\<lparr>syntaxtype = SYNTAX_ATOM, decode = Inr\<rparr>, \<lparr>syntaxtype = SYNTAX_ATOM, decode = Inr\<rparr>] []
     = Inr (length (lit ''rel x y''), [lit ''x'', lit ''y''])
   \<and> parse_values_loop (lit ''rel x y'') 3 [\<lparr>syntaxtype = SYNTAX_ATOM, decode = Inr\<rparr>] []
     = Inr (5, [lit ''x''])
   \<and> (5::nat) \<noteq> length (lit ''rel x y'')
   \<and> parse_values (lit ''rel x y'') 3 [\<lparr>syntaxtype = SYNTAX_ATOM, decode = Inr\<rparr>]
     = Inl (Exception (msg_at ''Expected EOL'' 5 (lit ''rel x y'')))"
proof -
  have ok: "parse_values (lit ''rel x y'') 3
       [\<lparr>syntaxtype = SYNTAX_ATOM, decode = Inr\<rparr>, \<lparr>syntaxtype = SYNTAX_ATOM, decode = Inr\<rparr>]
     = Inr [lit ''x'', lit ''y'']"
    by code_simp
  have short: "parse_values_loop (lit ''rel x y'') 3 [\<lparr>syntaxtype = SYNTAX_ATOM, decode = Inr\<rparr>] []
     = Inr (5, [lit ''x'']) \<and> (5::nat) \<noteq> length (lit ''rel x y'')"
    by code_simp
  have utf8: "valid_utf8 (lit ''rel x y'')"
    by code_simp
  from parse_values_contract [of "lit ''rel x y''" 3
       "[\<lparr>syntaxtype = SYNTAX_ATOM, decode = Inr\<rparr>, \<lparr>syntaxtype = SYNTAX_ATOM, decode = Inr\<rparr>]"
       "[lit ''x'', lit ''y'']"] ok
  have "parse_values_loop (lit ''rel x y'') 3
       [\<lparr>syntaxtype = SYNTAX_ATOM, decode = Inr\<rparr>, \<lparr>syntaxtype = SYNTAX_ATOM, decode = Inr\<rparr>] []
     = Inr (length (lit ''rel x y''), [lit ''x'', lit ''y''])"
    by blast
  moreover from parse_values_contract [of "lit ''rel x y''" 3
       "[\<lparr>syntaxtype = SYNTAX_ATOM, decode = Inr\<rparr>]" "[lit ''x'']" 5] short utf8
  have "parse_values (lit ''rel x y'') 3 [\<lparr>syntaxtype = SYNTAX_ATOM, decode = Inr\<rparr>]
     = Inl (Exception (msg_at ''Expected EOL'' 5 (lit ''rel x y'')))"
    by simp
  ultimately show ?thesis using ok short by blast
qed

text \<open>
  The line \<^verbatim>\<open>rel x \<close> followed by the byte 0xff, for a relation with one atom column:
  the bytes after \<^verbatim>\<open>x\<close> are trailing data, and the exception raised is that of \<^verbatim>\<open>u\<close>,
  not \<^verbatim>\<open>Expected EOL\<close>.
\<close>

theorem parse_values_contract_counterexample:
  "parse_values_loop (lit ''rel x '' @ [0xff]) 3 [\<lparr>syntaxtype = SYNTAX_ATOM, decode = Inr\<rparr>] []
     = Inr (5, [lit ''x''])
   \<and> (5::nat) \<noteq> length (lit ''rel x '' @ [0xff])
   \<and> parse_values (lit ''rel x '' @ [0xff]) 3 [\<lparr>syntaxtype = SYNTAX_ATOM, decode = Inr\<rparr>]
     = Inl (Exception (lit ''Not valid UTF-8: '' @ [0x22] @ lit ''rel x '' @ [0x5c, 0x78, 0x66, 0x66, 0x22]))
   \<and> parse_values (lit ''rel x '' @ [0xff]) 3 [\<lparr>syntaxtype = SYNTAX_ATOM, decode = Inr\<rparr>]
     \<noteq> Inl (Exception (msg_at ''Expected EOL'' 5 (lit ''rel x '' @ [0xff])))"
  by code_simp

text \<open>
  C5. \<^verbatim>\<open>parse_space\<close> returns \<open>i + 1\<close> exactly when there is a byte at \<open>i\<close> and it is
  0x20. Otherwise, for \<open>i\<close> within the line or at its end, it fails: with the exception
  \<^verbatim>\<open>Expected space character\<close> naming the position when the line is valid UTF-8, and
  with the exception \<^verbatim>\<open>Not valid UTF-8\<close> of \<^verbatim>\<open>u\<close> otherwise. Every iteration of the
  loop of \<^verbatim>\<open>parse_values\<close> starts with it: its failure is the failure of the loop, and
  an iteration that succeeds has consumed one space. With two spaces before a value whose
  column is an atom or a string, \<^verbatim>\<open>parse_values\<close> fails, and on a valid UTF-8 line the
  exception names the position of the second space.
\<close>

theorem parse_space_contract:
  "(parse_space line i = Inr j \<longleftrightarrow> i < length line \<and> line ! i = 0x20 \<and> j = i + 1)
   \<and> (i \<le> length line \<and> \<not> (i < length line \<and> line ! i = 0x20) \<longrightarrow>
        parse_space line i =
          Inl (Exception (if valid_utf8 line then msg_space i line
                          else msg_not_valid_utf8 (backslashreplace line))))
   \<and> (parse_space line i = Inl e \<longrightarrow> parse_values_loop line i (d # dts) vs = Inl e)
   \<and> (parse_values_loop line i (d # dts) vs = Inr r \<longrightarrow> parse_space line i = Inr (i + 1))
   \<and> (i + 1 < length line \<and> line ! i = 0x20 \<and> line ! (i + 1) = 0x20
        \<and> syntaxtype d \<noteq> SYNTAX_OTHER \<longrightarrow>
        parse_values line i (d # dts) =
          Inl (Exception (if \<not> valid_utf8 line then msg_not_valid_utf8 (backslashreplace line)
                          else if syntaxtype d = SYNTAX_ATOM then msg_atom (i + 1) line
                          else msg_at ''Did not find expected string'' (i + 1) line)))"
proof (intro conjI impI)
  show "parse_space line i = Inr j \<longleftrightarrow> i < length line \<and> line ! i = 0x20 \<and> j = i + 1"
    by (rule parse_space_iff)
next
  assume "i \<le> length line \<and> \<not> (i < length line \<and> line ! i = 0x20)"
  then show "parse_space line i =
          Inl (Exception (if valid_utf8 line then msg_space i line
                          else msg_not_valid_utf8 (backslashreplace line)))"
    by (simp add: parse_space_fail)
next
  assume "parse_space line i = Inl e"
  then show "parse_values_loop line i (d # dts) vs = Inl e" by simp
next
  assume "parse_values_loop line i (d # dts) vs = Inr r"
  then obtain i1 where "parse_space line i = Inr i1" by (auto split: sum.splits)
  then show "parse_space line i = Inr (i + 1)" by (simp add: parse_space_iff)
next
  assume a: "i + 1 < length line \<and> line ! i = 0x20 \<and> line ! (i + 1) = 0x20
        \<and> syntaxtype d \<noteq> SYNTAX_OTHER"
  then have sp: "parse_space line i = Inr (i + 1)" by (simp add: parse_space_iff)
  from a have at: "parse_atom line (i + 1) = Inl (Exception (if valid_utf8 line then msg_atom (i + 1) line
       else msg_not_valid_utf8 (backslashreplace line)))"
    by (intro parse_atom_fail parse_atom_loop_here) simp
  from a have st: "parse_string line (i + 1) = Inl (Exception (if valid_utf8 line then msg_at ''Did not find expected string'' (i + 1) line
       else msg_not_valid_utf8 (backslashreplace line)))"
    by (intro parse_string_fail) simp_all
  from a sp at st show "parse_values line i (d # dts) =
          Inl (Exception (if \<not> valid_utf8 line then msg_not_valid_utf8 (backslashreplace line)
                          else if syntaxtype d = SYNTAX_ATOM then msg_atom (i + 1) line
                          else msg_at ''Did not find expected string'' (i + 1) line))"
    by (cases "syntaxtype d") (simp_all add: parse_values_def unpack_def)
qed

theorem parse_space_contract_witness:
  "parse_space (lit ''rel  x'') 3 = Inr 4
   \<and> parse_space (lit ''rel  x'') 0 = Inl (Exception (msg_space 0 (lit ''rel  x'')))
   \<and> parse_values_loop (lit ''rel  x'') 0 [\<lparr>syntaxtype = SYNTAX_ATOM, decode = Inr\<rparr>] ([] :: bytes list)
     = Inl (Exception (msg_space 0 (lit ''rel  x'')))
   \<and> parse_values_loop (lit ''rel x'') 3 [\<lparr>syntaxtype = SYNTAX_ATOM, decode = Inr\<rparr>] []
     = Inr (5, [lit ''x''])
   \<and> parse_space (lit ''rel x'') 3 = Inr (3 + 1)
   \<and> parse_values (lit ''rel  x'') 3 [\<lparr>syntaxtype = SYNTAX_ATOM, decode = Inr\<rparr>]
     = (Inl (Exception (msg_atom (3 + 1) (lit ''rel  x''))) :: error + bytes list)"
proof -
  let ?d = "\<lparr>syntaxtype = SYNTAX_ATOM, decode = Inr\<rparr> :: bytes dt"
  have utf8: "valid_utf8 (lit ''rel  x'')"
    by code_simp
  have here: "3 < length (lit ''rel  x'') \<and> lit ''rel  x'' ! 3 = 0x20 \<and> (4::nat) = 3 + 1"
    by (simp add: lit_def)
  have two: "3 + 1 < length (lit ''rel  x'') \<and> lit ''rel  x'' ! 3 = 0x20 \<and> lit ''rel  x'' ! (3 + 1) = 0x20
      \<and> syntaxtype ?d \<noteq> SYNTAX_OTHER"
    by (simp add: lit_def)
  have start: "0 \<le> length (lit ''rel  x'') \<and> \<not> (0 < length (lit ''rel  x'') \<and> lit ''rel  x'' ! 0 = 0x20)"
    by (simp add: lit_def)
  have ok: "parse_values_loop (lit ''rel x'') 3 [?d] [] = Inr (5, [lit ''x''])"
    by code_simp
  note inst = parse_space_contract [where line = "lit ''rel  x''" and i = 3 and j = 4 and d = ?d
      and dts = "[]"]
  note inst0 = parse_space_contract [where line = "lit ''rel  x''" and i = 0 and d = ?d
      and dts = "[]" and vs = "[]" and e = "Exception (msg_space 0 (lit ''rel  x''))"]
  note inst1 = parse_space_contract [where line = "lit ''rel x''" and i = 3 and d = ?d
      and dts = "[]" and vs = "[]" and r = "(5, [lit ''x''])"]
  from inst here have c1: "parse_space (lit ''rel  x'') 3 = Inr 4" by blast
  from inst0 [THEN conjunct2, THEN conjunct1, THEN mp, OF start] utf8
  have c2: "parse_space (lit ''rel  x'') 0 = Inl (Exception (msg_space 0 (lit ''rel  x'')))"
    by simp
  with inst0 have c3: "parse_values_loop (lit ''rel  x'') 0 [?d] [] = Inl (Exception (msg_space 0 (lit ''rel  x'')))"
    by blast
  from inst1 ok have c4: "parse_space (lit ''rel x'') 3 = Inr (3 + 1)" by blast
  from inst [THEN conjunct2, THEN conjunct2, THEN conjunct2, THEN conjunct2, THEN mp, OF two] utf8
  have c5: "parse_values (lit ''rel  x'') 3 [?d] = Inl (Exception (msg_atom (3 + 1) (lit ''rel  x'')))"
    by simp
  from c1 c2 c3 c4 c5 ok show ?thesis by blast
qed

text \<open>
  The line of the two bytes \<^verbatim>\<open>r\<close> and 0xff has no byte at offset 2, and the exception is
  that of \<^verbatim>\<open>u\<close>, not \<^verbatim>\<open>Expected space character\<close>.
\<close>

theorem parse_space_contract_counterexample:
  "\<not> (2 < length [0x72, 0xff :: byte])
   \<and> parse_space [0x72, 0xff] 2
     = Inl (Exception (lit ''Not valid UTF-8: '' @ [0x22, 0x72, 0x5c, 0x78, 0x66, 0x66, 0x22]))
   \<and> parse_space [0x72, 0xff] 2 \<noteq> Inl (Exception (msg_space 2 [0x72, 0xff]))"
  by code_simp

section \<open>Rows\<close>

text \<open>
  C6. Let the atom at the start of the line be \<open>rel\<close>. If \<open>rel\<close> is not a key of the
  mapping, \<^verbatim>\<open>parse_row\<close> fails: with the exception \<^verbatim>\<open>No such table\<close>, whose message
  contains \<open>rel\<close>, when the line is valid UTF-8 (\<open>rel\<close> is then valid UTF-8 too), and
  otherwise with the exception \<^verbatim>\<open>Not valid UTF-8\<close> of \<^verbatim>\<open>u\<close>, for \<open>rel\<close> if it is not
  valid UTF-8 and else for the line. If \<open>rel\<close> is a key, \<^verbatim>\<open>parse_row\<close> is
  \<^verbatim>\<open>parse_values\<close> on the rest of the line with the columns of \<open>rel\<close>: its values
  paired with \<open>rel\<close>, or its failure.
\<close>

theorem parse_row_relation:
  "parse_atom line 0 = Inr (rel, i) \<Longrightarrow>
     (dor rel = None \<longrightarrow>
        parse_row line dor =
          Inl (Exception (if valid_utf8 line then msg_no_such_table rel line
                          else if valid_utf8 rel then msg_not_valid_utf8 (backslashreplace line)
                          else msg_not_valid_utf8 (backslashreplace rel)))
        \<and> sublist rel (msg_no_such_table rel line))
     \<and> (dor rel = Some dts \<longrightarrow>
        parse_row line dor =
          (case parse_values line i dts of Inl e \<Rightarrow> Inl e | Inr vs \<Rightarrow> Inr (rel, vs)))"
  using parse_atom_valid_utf8 [of line rel i]
  by (auto simp: parse_row_def raise_fmt_eq u_def sublist_no_such_table)

theorem parse_row_relation_witness:
  "parse_atom (lit ''rex 1'') 0 = Inr (lit ''rex'', 3)
   \<and> parse_row (lit ''rex 1'') [lit ''rel'' \<mapsto> [\<lparr>syntaxtype = SYNTAX_ATOM, decode = Inr\<rparr>]]
     = Inl (Exception (msg_no_such_table (lit ''rex'') (lit ''rex 1'')))
   \<and> sublist (lit ''rex'') (msg_no_such_table (lit ''rex'') (lit ''rex 1''))
   \<and> parse_atom (lit ''rel 1'') 0 = Inr (lit ''rel'', 3)
   \<and> parse_row (lit ''rel 1'') [lit ''rel'' \<mapsto> [\<lparr>syntaxtype = SYNTAX_ATOM, decode = Inr\<rparr>]]
     = Inr (lit ''rel'', [lit ''1''])"
proof -
  let ?D = "[lit ''rel'' \<mapsto> [\<lparr>syntaxtype = SYNTAX_ATOM, decode = Inr\<rparr> :: bytes dt]]"
  have a1: "parse_atom (lit ''rex 1'') 0 = Inr (lit ''rex'', 3)" by code_simp
  have a2: "parse_atom (lit ''rel 1'') 0 = Inr (lit ''rel'', 3)" by code_simp
  have k1: "?D (lit ''rex'') = None" by (simp add: lit_def)
  have k2: "?D (lit ''rel'') = Some [\<lparr>syntaxtype = SYNTAX_ATOM, decode = Inr\<rparr>]" by simp
  have u1: "valid_utf8 (lit ''rex 1'')" by code_simp
  have v: "parse_values (lit ''rel 1'') 3 [\<lparr>syntaxtype = SYNTAX_ATOM, decode = Inr\<rparr>] = Inr [lit ''1'']"
    by code_simp
  from parse_row_relation [OF a1, of ?D] k1 u1
  have "parse_row (lit ''rex 1'') ?D = Inl (Exception (msg_no_such_table (lit ''rex'') (lit ''rex 1'')))
      \<and> sublist (lit ''rex'') (msg_no_such_table (lit ''rex'') (lit ''rex 1''))"
    by simp
  moreover from parse_row_relation [OF a2, of ?D "[\<lparr>syntaxtype = SYNTAX_ATOM, decode = Inr\<rparr>]"] k2 v
  have "parse_row (lit ''rel 1'') ?D = Inr (lit ''rel'', [lit ''1''])"
    by simp
  ultimately show ?thesis using a1 a2 by blast
qed

text \<open>
  The line of the two bytes \<^verbatim>\<open>r\<close> and 0xff is one atom, which is no key of the empty
  mapping; the message of the exception is the escaped rendering made by \<^verbatim>\<open>u\<close>, which
  does not contain the relation name.
\<close>

theorem parse_row_relation_counterexample:
  "parse_atom [0x72, 0xff] 0 = Inr ([0x72, 0xff], 2)
   \<and> parse_row [0x72, 0xff] (Map.empty :: bytes \<rightharpoonup> unit dt list)
     = Inl (Exception (lit ''Not valid UTF-8: '' @ [0x22, 0x72, 0x5c, 0x78, 0x66, 0x66, 0x22]))
   \<and> \<not> sublist [0x72, 0xff] (lit ''Not valid UTF-8: '' @ [0x22, 0x72, 0x5c, 0x78, 0x66, 0x66, 0x22])"
  by code_simp

section \<open>Header extraction\<close>

text \<open>
  C7. \<^verbatim>\<open>split_header\<close> never fails. It reads the lines up to the first one that, once
  stripped, is neither blank nor starts with \<^verbatim>\<open>%\<close>; it drops the blank ones, strips from
  each of the others every leading \<^verbatim>\<open>%\<close> and space (\<^verbatim>\<open>lstrip(b'% ')\<close> takes a set of
  bytes, so a second \<^verbatim>\<open>%\<close> goes too), and returns them with a newline after each, the
  empty byte string when there is none. The line that stopped it is pushed back stripped,
  so that the buffer still holds it and all the lines after it.
\<close>

theorem split_header_extracts:
  "\<exists>a'. split_header a = Inr (header_of (pending a), a') \<and> pending a' = rest_of (pending a)"
  by (rule split_header_eq)

text \<open>
  On the single line \<^verbatim>\<open>%%a\<close> the header is \<^verbatim>\<open>a\<close>, where stripping the leading
  \<^verbatim>\<open>%\<close> and the spaces after it would leave \<^verbatim>\<open>%a\<close>.
\<close>

theorem split_header_extracts_counterexample:
  "split_header (Ahead [[0x25, 0x25, 0x61]])
     = Inr ([0x61, 0x0a], \<lparr>ahead_iter = [], ahead_x = None, ahead_hasx = None\<rparr>)
   \<and> header_as_specified (pending (Ahead [[0x25, 0x25, 0x61]])) = [0x25, 0x61, 0x0a]"
  by code_simp



section \<open>Properties of the lookahead buffer\<close>

text \<open>
  C9. \<^verbatim>\<open>__next__\<close> returns the pushed-back line and empties the slot when the slot is
  occupied; otherwise it takes the next line of the underlying sequence, and raises
  \<^verbatim>\<open>StopIteration\<close> when that is exhausted. \<^verbatim>\<open>unget\<close> on an occupied slot fails its
  assertion and stores nothing; on an empty slot it stores the line.
\<close>

theorem ahead_next_unget:
  "(ahead_x a = Some l \<longrightarrow>
      ahead_next a = Inr (l, a\<lparr>ahead_x := None, ahead_hasx := Some False\<rparr>))
   \<and> (ahead_x a = None \<and> ahead_iter a = l # ls \<longrightarrow>
      ahead_next a = Inr (l, a\<lparr>ahead_iter := ls\<rparr>))
   \<and> (ahead_x a = None \<and> ahead_iter a = [] \<longrightarrow> ahead_next a = Inl StopIteration)
   \<and> (ahead_x a = Some l \<longrightarrow> unget a l' = Inl AssertionError)
   \<and> (ahead_x a = None \<longrightarrow> unget a l' = Inr (a\<lparr>ahead_x := Some l'\<rparr>))"
  by (simp add: ahead_next_def unget_def)

theorem ahead_next_unget_witness:
  "ahead_next \<lparr>ahead_iter = [[0x62]], ahead_x = Some [0x61], ahead_hasx = None\<rparr>
     = Inr ([0x61], \<lparr>ahead_iter = [[0x62]], ahead_x = None, ahead_hasx = Some False\<rparr>)
   \<and> ahead_next (Ahead [[0x62], [0x63]])
     = Inr ([0x62], \<lparr>ahead_iter = [[0x63]], ahead_x = None, ahead_hasx = None\<rparr>)
   \<and> ahead_next (Ahead []) = Inl StopIteration
   \<and> unget \<lparr>ahead_iter = [[0x62]], ahead_x = Some [0x61], ahead_hasx = None\<rparr> [0x63]
     = Inl AssertionError
   \<and> unget (Ahead [[0x62]]) [0x63]
     = Inr \<lparr>ahead_iter = [[0x62]], ahead_x = Some [0x63], ahead_hasx = None\<rparr>"
  using
    ahead_next_unget [of "\<lparr>ahead_iter = [[0x62]], ahead_x = Some [0x61], ahead_hasx = None\<rparr>"
      "[0x61]" "[]" "[0x63]"]
    ahead_next_unget [of "Ahead [[0x62], [0x63]]" "[0x62]" "[[0x63]]" "[0x63]"]
    ahead_next_unget [of "Ahead []" "[]" "[]" "[0x63]"]
    ahead_next_unget [of "Ahead [[0x62]]" "[0x62]" "[]" "[0x63]"]
  by (simp add: Ahead_def)

section \<open>Relations without columns\<close>

text \<open>
  C10. A relation declared without columns: the line that is exactly the relation atom
  decodes to the relation paired with the empty tuple, and a line with any byte after the
  relation atom fails.
\<close>

theorem parse_row_zero_columns:
  "dor rel = Some [] \<Longrightarrow>
     (rel \<noteq> [] \<and> (\<forall>b\<in>set rel. b > 0x20 \<and> b \<noteq> 0x7f) \<longrightarrow> parse_row rel dor = Inr (rel, []))
     \<and> (parse_atom line 0 = Inr (rel, i) \<and> i < length line \<longrightarrow> (\<exists>e. parse_row line dor = Inl e))"
proof (intro conjI impI)
  assume dor: "dor rel = Some []" and "rel \<noteq> [] \<and> (\<forall>b\<in>set rel. b > 0x20 \<and> b \<noteq> 0x7f)"
  then have "parse_atom_loop rel 0 = length rel" and "rel \<noteq> []"
    by (auto intro!: parse_atom_loop_all)
  then have "parse_atom rel 0 = Inr (rel, length rel)"
    by (simp add: parse_atom_def)
  with dor show "parse_row rel dor = Inr (rel, [])"
    by (simp add: parse_row_def parse_values_def)
next
  assume dor: "dor rel = Some []" and "parse_atom line 0 = Inr (rel, i) \<and> i < length line"
  then show "\<exists>e. parse_row line dor = Inl e"
    by (simp add: parse_row_def parse_values_def raise_fmt_eq)
qed

theorem parse_row_zero_columns_witness:
  "parse_row (lit ''rel'') [lit ''rel'' \<mapsto> ([] :: unit dt list)] = Inr (lit ''rel'', [])
   \<and> parse_atom (lit ''rel x'') 0 = Inr (lit ''rel'', 3)
   \<and> (\<exists>e. parse_row (lit ''rel x'') [lit ''rel'' \<mapsto> ([] :: unit dt list)] = Inl e)"
proof -
  let ?D = "[lit ''rel'' \<mapsto> ([] :: unit dt list)]"
  have k: "?D (lit ''rel'') = Some []" by simp
  have atom: "lit ''rel'' \<noteq> [] \<and> (\<forall>b \<in> set (lit ''rel''). b > 0x20 \<and> b \<noteq> 0x7f)"
    by (simp add: lit_def)
  have more: "parse_atom (lit ''rel x'') 0 = Inr (lit ''rel'', 3) \<and> 3 < length (lit ''rel x'')"
    by code_simp
  from parse_row_zero_columns [where dor = ?D and rel = "lit ''rel''" and line = "lit ''rel x''"
      and i = 3, OF k] atom more show ?thesis
    by blast
qed

end
